theory Spec2Isabelle
  imports Main "HOL-Library.Word" "HOL-Library.Signed_Division"
begin

section \<open>The ID generator of \<^verbatim>\<open>idgenerator/idgenerator.go\<close>\<close>

text \<open>
  Go's \<^verbatim>\<open>int64\<close> is a 64-bit word read in two's complement: \<open>+\<close> and \<open>-\<close> wrap,
  comparisons are the signed ones (\<open><s\<close>, \<open>\<le>s\<close>).
\<close>

type_synonym int64 = "64 word"

text \<open>
  Go's \<^verbatim>\<open>%\<close> on \<^verbatim>\<open>int64\<close> truncates towards zero (the result has the sign of the
  dividend); the divisor is not zero here, the caller checks it.
\<close>

definition rem64 :: "int64 \<Rightarrow> int64 \<Rightarrow> int64" where
  "rem64 a b = word_of_int (sint a smod sint b)"

text \<open>
  The struct \<^verbatim>\<open>IDGenerator\<close>. The mutex is left out: every public method holds it
  from entry to exit, so the methods are modelled as atomic state transformers.
  \<^verbatim>\<open>map[int64]bool\<close> is a partial map; the code only ever stores \<^verbatim>\<open>true\<close> and only
  ever tests whether a key is present.
\<close>

record IDGenerator =
  minValue :: int64
  maxValue :: int64
  valueRange :: int64
  offset :: int64
  usedMap :: "int64 \<rightharpoonup> bool"

text \<open>
  The two ways a call can fail: the error value returned by the allocation methods
  (\<^verbatim>\<open>errors.New("No available value range to allocate id")\<close>), and the run-time panic
  of an integer division by zero in \<^verbatim>\<open>updateOffset\<close>.
\<close>

datatype error = ExhaustedRange | DivideByZero

definition init :: "IDGenerator \<Rightarrow> int64 \<Rightarrow> int64 \<Rightarrow> IDGenerator" where
  "init idGenerator mn mx =
     idGenerator\<lparr>minValue := mn, maxValue := mx, valueRange := mx - mn + 1,
                 offset := 0, usedMap := Map.empty\<rparr>"

definition NewGenerator :: "int64 \<Rightarrow> int64 \<Rightarrow> IDGenerator" where
  "NewGenerator mn mx =
     init \<lparr>minValue = 0, maxValue = 0, valueRange = 0, offset = 0, usedMap = Map.empty\<rparr> mn mx"

text \<open>
  \<^verbatim>\<open>updateOffset\<close>: the increment is stored first, then the remainder is taken; with a
  zero \<^verbatim>\<open>valueRange\<close> the remainder panics, after the increment.
\<close>

definition updateOffset :: "IDGenerator \<Rightarrow> (error + unit) \<times> IDGenerator" where
  "updateOffset g =
     (let g1 = g\<lparr>offset := offset g + 1\<rparr>
      in if valueRange g1 = 0 then (Inl DivideByZero, g1)
         else (Inr (), g1\<lparr>offset := rem64 (offset g1) (valueRange g1)\<rparr>))"

text \<open>
  The scan loop of \<^verbatim>\<open>Allocate\<close>. It may run forever from a state whose cursor never
  comes back to \<open>offsetBegin\<close>, so it is a partial function: \<open>None\<close> is "does not return".
\<close>

partial_function (option) Allocate_loop ::
  "int64 \<Rightarrow> IDGenerator \<Rightarrow> ((error + unit) \<times> IDGenerator) option" where
  "Allocate_loop offsetBegin g =
     (if usedMap g (offset g) \<noteq> None then
        (case updateOffset g of
           (Inl e, g1) \<Rightarrow> Some (Inl e, g1)
         | (Inr u, g1) \<Rightarrow>
             if offset g1 = offsetBegin then Some (Inl ExhaustedRange, g1)
             else Allocate_loop offsetBegin g1)
      else Some (Inr (), g))"

definition Allocate :: "IDGenerator \<Rightarrow> ((error + int64) \<times> IDGenerator) option" where
  "Allocate g =
     (case Allocate_loop (offset g) g of
        None \<Rightarrow> None
      | Some (Inl e, g1) \<Rightarrow> Some (Inl e, g1)
      | Some (Inr u, g1) \<Rightarrow>
          (let g2 = g1\<lparr>usedMap := (usedMap g1)(offset g1 \<mapsto> True)\<rparr>;
               id' = offset g2 + minValue g2
           in case updateOffset g2 of
                (Inl e, g3) \<Rightarrow> Some (Inl e, g3)
              | (Inr u, g3) \<Rightarrow> Some (Inr id', g3)))"

text \<open>
  The scan loop of \<^verbatim>\<open>AllocateWithOffset\<close> works on the local \<^verbatim>\<open>current\<close> only;
  \<^verbatim>\<open>current++\<close> wraps at the top of \<^verbatim>\<open>int64\<close>.
\<close>

partial_function (option) AllocateWithOffset_loop ::
  "int64 \<Rightarrow> IDGenerator \<Rightarrow> (error + int64) option" where
  "AllocateWithOffset_loop current g =
     (if usedMap g current \<noteq> None then
        (let current1 = current + 1
         in if maxValue g <s current1 then Some (Inl ExhaustedRange)
            else AllocateWithOffset_loop current1 g)
      else Some (Inr current))"

definition AllocateWithOffset ::
  "int64 \<Rightarrow> IDGenerator \<Rightarrow> ((error + int64) \<times> IDGenerator) option" where
  "AllocateWithOffset off g =
     (case AllocateWithOffset_loop off g of
        None \<Rightarrow> None
      | Some (Inl e) \<Rightarrow> Some (Inl e, g)
      | Some (Inr current) \<Rightarrow>
          Some (Inr current, g\<lparr>usedMap := (usedMap g)(current \<mapsto> True)\<rparr>))"

text \<open>\<^verbatim>\<open>FreeID\<close>; the trace it prints is not part of the state.\<close>

definition FreeID :: "int64 \<Rightarrow> IDGenerator \<Rightarrow> IDGenerator" where
  "FreeID id' g =
     (if id' <s minValue g \<or> maxValue g <s id' then g
      else g\<lparr>usedMap := (usedMap g)(id' := None)\<rparr>)"

declare Allocate_loop.simps [code] AllocateWithOffset_loop.simps [code]

subsection \<open>The scan loops with a bound on the number of iterations\<close>

text \<open>
  The same two loops, given the number of iterations of the loop body they may execute:
  \<open>None\<close> means that the loop has not left its body after that many iterations.
\<close>

fun Allocate_loop_n ::
  "nat \<Rightarrow> int64 \<Rightarrow> IDGenerator \<Rightarrow> ((error + unit) \<times> IDGenerator) option" where
  "Allocate_loop_n 0 offsetBegin g = None"
| "Allocate_loop_n (Suc n) offsetBegin g =
     (if usedMap g (offset g) \<noteq> None then
        (case updateOffset g of
           (Inl e, g1) \<Rightarrow> Some (Inl e, g1)
         | (Inr u, g1) \<Rightarrow>
             if offset g1 = offsetBegin then Some (Inl ExhaustedRange, g1)
             else Allocate_loop_n n offsetBegin g1)
      else Some (Inr (), g))"

fun AllocateWithOffset_loop_n ::
  "nat \<Rightarrow> int64 \<Rightarrow> IDGenerator \<Rightarrow> (error + int64) option" where
  "AllocateWithOffset_loop_n 0 current g = None"
| "AllocateWithOffset_loop_n (Suc n) current g =
     (if usedMap g current \<noteq> None then
        (let current1 = current + 1
         in if maxValue g <s current1 then Some (Inl ExhaustedRange)
            else AllocateWithOffset_loop_n n current1 g)
      else Some (Inr current))"

subsection \<open>Sequences of calls\<close>

text \<open>
  A client calling the methods one after the other. The replies of the two allocation
  methods are collected in order (\<^verbatim>\<open>FreeID\<close> returns nothing); a panic, which only
  \<^verbatim>\<open>Allocate\<close> can raise, ends the run.
\<close>

datatype call = CallAllocate | CallAllocateWithOffset int64 | CallFreeID int64

fun calls ::
  "call list \<Rightarrow> IDGenerator \<Rightarrow> ((error + int64) list \<times> IDGenerator) option" where
  "calls [] g = Some ([], g)"
| "calls (CallFreeID i # cs) g = calls cs (FreeID i g)"
| "calls (CallAllocate # cs) g =
     (case Allocate g of
        None \<Rightarrow> None
      | Some (r, g1) \<Rightarrow>
          if r = Inl DivideByZero then Some ([r], g1)
          else map_option (\<lambda>(rs, g2). (r # rs, g2)) (calls cs g1))"
| "calls (CallAllocateWithOffset off # cs) g =
     (case AllocateWithOffset off g of
        None \<Rightarrow> None
      | Some (r, g1) \<Rightarrow> map_option (\<lambda>(rs, g2). (r # rs, g2)) (calls cs g1))"

subsection \<open>The invariants of the data model\<close>

text \<open>
  \<open>cursor_ok\<close>: the range size is positive and the cursor is an offset in \<open>[0, size)\<close>.
  \<open>allocated_ok\<close>: every key of the map is an offset in \<open>[0, size)\<close>.
\<close>

definition cursor_ok :: "IDGenerator \<Rightarrow> bool" where
  "cursor_ok g \<longleftrightarrow> 0 <s valueRange g \<and> 0 \<le>s offset g \<and> offset g <s valueRange g"


text \<open>
  The generator was set up on a range \<open>[minValue, maxValue]\<close> that is not empty and whose
  size \<open>maxValue - minValue + 1\<close> fits \<^verbatim>\<open>int64\<close>.
\<close>

definition range_ok :: "IDGenerator \<Rightarrow> bool" where
  "range_ok g \<longleftrightarrow>
     minValue g \<le>s maxValue g \<and>
     sint (maxValue g) - sint (minValue g) + 1 < 9223372036854775808 \<and>
     valueRange g = maxValue g - minValue g + 1"

text \<open>Every offset in \<open>[0, size)\<close> is a key of the map.\<close>

definition all_used :: "IDGenerator \<Rightarrow> bool" where
  "all_used g \<longleftrightarrow> (\<forall>k. 0 \<le>s k \<and> k <s valueRange g \<longrightarrow> usedMap g k \<noteq> None)"

text \<open>The identifiers among the replies of a sequence of calls.\<close>

fun returned :: "(error + int64) list \<Rightarrow> int64 list" where
  "returned [] = []"
| "returned (Inr i # rs) = i # returned rs"
| "returned (Inl e # rs) = returned rs"

subsection \<open>Bookkeeping of the scan of \<^verbatim>\<open>Allocate\<close>\<close>

text \<open>
  \<open>scanned b g k\<close>: the scan that started at offset \<open>b\<close> and stands at the cursor of \<open>g\<close>
  has passed offset \<open>k\<close>. \<open>steps_left b g\<close>: the number of cursor steps from the cursor
  of \<open>g\<close> round to \<open>b\<close>.
\<close>

definition scanned :: "int64 \<Rightarrow> IDGenerator \<Rightarrow> int64 \<Rightarrow> bool" where
  "scanned b g k \<longleftrightarrow>
     (if b \<le>s offset g then b \<le>s k \<and> k <s offset g else b \<le>s k \<or> k <s offset g)"

definition steps_left :: "int64 \<Rightarrow> IDGenerator \<Rightarrow> nat" where
  "steps_left b g =
     nat (if offset g <s b then sint b - sint (offset g)
          else sint (valueRange g) - sint (offset g) + sint b)"

text \<open>
  What the scan loop of \<^verbatim>\<open>Allocate\<close> leaves behind, whatever the state it starts from:
  it moves the cursor only; it gives up only with the cursor back at \<open>offsetBegin\<close>; it
  leaves normally only on a free slot; it panics only on a zero \<^verbatim>\<open>valueRange\<close>.
\<close>

definition loop_frame ::
  "int64 \<Rightarrow> IDGenerator \<Rightarrow> (error + unit) \<times> IDGenerator \<Rightarrow> bool" where
  "loop_frame b g y \<longleftrightarrow>
     snd y = g\<lparr>offset := offset (snd y)\<rparr> \<and>
     (fst y = Inl ExhaustedRange \<longrightarrow> offset (snd y) = b) \<and>
     (fst y = Inr () \<longrightarrow> usedMap g (offset (snd y)) = None) \<and>
     (fst y = Inl DivideByZero \<longrightarrow> valueRange g = 0)"

subsection \<open>Two states used as examples\<close>

text \<open>
  \<open>example_taken\<close> is the generator on \<open>[1, 1]\<close> after one \<^verbatim>\<open>Allocate\<close>;
  \<open>example_full\<close> is that state after \<^verbatim>\<open>AllocateWithOffset(1)\<close>.
\<close>

definition example_taken :: IDGenerator where
  "example_taken =
     \<lparr>minValue = 1, maxValue = 1, valueRange = 1, offset = 0, usedMap = [0 \<mapsto> True]\<rparr>"

definition example_full :: IDGenerator where
  "example_full =
     \<lparr>minValue = 1, maxValue = 1, valueRange = 1, offset = 0,
      usedMap = [0 \<mapsto> True, 1 \<mapsto> True]\<rparr>"

section \<open>Properties\<close>

subsection \<open>Arithmetic of \<^verbatim>\<open>int64\<close>\<close>

lemma sint64_bounds:
  "- 9223372036854775808 \<le> sint (x::int64)" "sint (x::int64) < 9223372036854775808"
  using sint_ge [of x] sint_lt [of x] by simp_all

lemma sint64_succ:
  assumes "sint (x::int64) < 9223372036854775807"
  shows "sint (x + 1) = sint x + 1"
proof -
  have "sint (x + 1) = signed_take_bit 63 (sint x + 1)"
    by (simp add: sint_word_ariths)
  also have "\<dots> = sint x + 1"
    using assms sint64_bounds(1) [of x] by (intro signed_take_bit_int_eq_self) simp_all
  finally show ?thesis .
qed

lemma sint64_inject: "sint (x::int64) = sint y \<longleftrightarrow> x = y"
  by (auto intro: signed_word_eqI)

lemma rem64_small:
  assumes "0 \<le> sint a" "sint a < sint b"
  shows "rem64 a b = a"
proof -
  have "sint a smod sint b = sint a"
    using assms by (simp add: smod_int_alt_def sgn_if)
  then show ?thesis by (simp add: rem64_def)
qed

lemma rem64_self: "rem64 a a = 0"
  by (simp add: rem64_def smod_int_alt_def)

lemma sint64_of_int:
  assumes "- 9223372036854775808 \<le> k" "k < 9223372036854775808"
  shows "sint (word_of_int k :: int64) = k"
  using assms by (simp add: sint_sbintrunc' signed_take_bit_int_eq_self)

lemma sint64_range_size:
  assumes "sint mn \<le> sint mx" "sint mx - sint mn + 1 < 9223372036854775808"
  shows "sint (mx - mn + 1 :: int64) = sint mx - sint mn + 1"
proof -
  have "mx - mn + 1 = (word_of_int (sint mx - sint mn + 1) :: int64)"
    by simp
  then show ?thesis using assms by (simp only: sint64_of_int) 
qed

subsection \<open>The cursor\<close>

text \<open>With a valid cursor, \<^verbatim>\<open>updateOffset\<close> steps to the next offset and wraps at the size.\<close>

lemma updateOffset_cursor_ok:
  assumes "cursor_ok g"
  shows "updateOffset g =
    (Inr (), g\<lparr>offset := (if offset g + 1 = valueRange g then 0 else offset g + 1)\<rparr>)"
proof -
  from assms have r: "0 < sint (valueRange g)"
    and o: "0 \<le> sint (offset g)" "sint (offset g) < sint (valueRange g)"
    by (simp_all add: cursor_ok_def word_sless_alt word_sle_eq)
  have nz: "valueRange g \<noteq> 0" using r by auto
  have s: "sint (offset g + 1) = sint (offset g) + 1"
    using o sint64_bounds(2) [of "valueRange g"] by (intro sint64_succ) simp
  show ?thesis
  proof (cases "offset g + 1 = valueRange g")
    case True
    then show ?thesis using nz by (simp add: updateOffset_def rem64_self)
  next
    case False
    then have "sint (offset g + 1) \<noteq> sint (valueRange g)" by (simp add: sint64_inject)
    then have "sint (offset g + 1) < sint (valueRange g)" using s o by simp
    then have "rem64 (offset g + 1) (valueRange g) = offset g + 1"
      using s o by (intro rem64_small) simp_all
    then show ?thesis using nz False by (simp add: updateOffset_def Let_def)
  qed
qed

subsection \<open>What the scan loops change\<close>

lemma updateOffset_frame:
  "updateOffset g = (r, g1) \<Longrightarrow>
   g1 = g\<lparr>offset := offset g1\<rparr> \<and> (r = Inl DivideByZero \<longleftrightarrow> valueRange g = 0) \<and>
   r \<noteq> Inl ExhaustedRange"
  by (auto simp: updateOffset_def Let_def split: if_splits)

lemma Allocate_loop_frame:
  assumes "Allocate_loop b g = Some y"
  shows "loop_frame b g y"
proof (rule Allocate_loop.raw_induct [where P = loop_frame, OF _ assms])
  fix loop b g y
  assume IH: "\<And>b g y. loop b g = Some y \<Longrightarrow> loop_frame b g y"
    and body: "(if usedMap g (offset g) \<noteq> None
      then case updateOffset g of (Inl e, g1) \<Rightarrow> Some (Inl e, g1)
           | (Inr u, g1) \<Rightarrow>
               if offset g1 = b then Some (Inl ExhaustedRange, g1)
               else loop b g1
      else Some (Inr (), g)) = Some y"
  show "loop_frame b g y"
  proof (cases "usedMap g (offset g) = None")
    case True
    with body show ?thesis by (auto simp: loop_frame_def)
  next
    case False
    obtain r g1 where u: "updateOffset g = (r, g1)" by (cases "updateOffset g")
    note f = updateOffset_frame [OF u]
    show ?thesis
    proof (cases r)
      case (Inl e)
      with body False u f show ?thesis by (auto simp: loop_frame_def)
    next
      case (Inr u')
      show ?thesis
      proof (cases "offset g1 = b")
        case True
        with body False u Inr f show ?thesis by (auto simp: loop_frame_def)
      next
        case False
        with body \<open>usedMap g (offset g) \<noteq> None\<close> u Inr have "loop b g1 = Some y" by simp
        from IH [OF this] have l: "loop_frame b g1 y" .
        from f have g1: "g1 = g\<lparr>offset := offset g1\<rparr>" and nz: "valueRange g \<noteq> 0"
          using Inr by auto
        have "usedMap g1 = usedMap g" "valueRange g1 = valueRange g"
          by (subst g1, simp)+
        moreover have "g1\<lparr>offset := offset (snd y)\<rparr> = g\<lparr>offset := offset (snd y)\<rparr>"
          by (subst g1) simp
        ultimately show ?thesis using l by (simp add: loop_frame_def)
      qed
    qed
  qed
qed

subsection \<open>The bounded loops agree with the loops\<close>

lemma Allocate_loop_n_sound:
  "Allocate_loop_n n b g = Some y \<Longrightarrow> Allocate_loop b g = Some y"
proof (induction n arbitrary: g)
  case 0
  then show ?case by simp
next
  case (Suc n)
  show ?case
  proof (cases "usedMap g (offset g) = None")
    case True
    with Suc.prems show ?thesis by (subst Allocate_loop.simps) simp
  next
    case False
    obtain r g1 where u: "updateOffset g = (r, g1)" by (cases "updateOffset g")
    show ?thesis
    proof (cases "\<exists>v. r = Inr v \<and> offset g1 \<noteq> b")
      case True
      with Suc.prems False u have "Allocate_loop_n n b g1 = Some y" by auto
      then have "Allocate_loop b g1 = Some y" by (rule Suc.IH)
      with True False u show ?thesis by (subst Allocate_loop.simps) auto
    next
      case False
      with Suc.prems \<open>usedMap g (offset g) \<noteq> None\<close> u show ?thesis
        by (subst Allocate_loop.simps) (auto split: sum.splits)
    qed
  qed
qed

lemma Allocate_loop_n_mono:
  "Allocate_loop_n n b g = Some y \<Longrightarrow> n \<le> m \<Longrightarrow> Allocate_loop_n m b g = Some y"
proof (induction n arbitrary: g m)
  case 0
  then show ?case by simp
next
  case (Suc n)
  then obtain m' where m: "m = Suc m'" and le: "n \<le> m'" by (cases m) auto
  show ?case
  proof (cases "usedMap g (offset g) = None")
    case True
    with Suc.prems m show ?thesis by simp
  next
    case False
    obtain r g1 where u: "updateOffset g = (r, g1)" by (cases "updateOffset g")
    show ?thesis
    proof (cases "\<exists>v. r = Inr v \<and> offset g1 \<noteq> b")
      case True
      with Suc.prems False u have "Allocate_loop_n n b g1 = Some y" by auto
      then have "Allocate_loop_n m' b g1 = Some y" using le by (rule Suc.IH)
      with True False u m show ?thesis by auto
    next
      case False
      with Suc.prems \<open>usedMap g (offset g) \<noteq> None\<close> u m show ?thesis
        by (auto split: sum.splits)
    qed
  qed
qed


lemma AllocateWithOffset_loop_n_mono:
  "AllocateWithOffset_loop_n n c g = Some y \<Longrightarrow> n \<le> m \<Longrightarrow>
   AllocateWithOffset_loop_n m c g = Some y"
proof (induction n arbitrary: c m)
  case 0
  then show ?case by simp
next
  case (Suc n)
  then obtain m' where m: "m = Suc m'" and le: "n \<le> m'" by (cases m) auto
  show ?case
  proof (cases "usedMap g c \<noteq> None \<and> \<not> maxValue g <s c + 1")
    case True
    with Suc.prems have "AllocateWithOffset_loop_n n (c + 1) g = Some y" by auto
    then have "AllocateWithOffset_loop_n m' (c + 1) g = Some y" using le by (rule Suc.IH)
    with True m show ?thesis by auto
  next
    case False
    with Suc.prems m show ?thesis by (auto simp: Let_def split: if_splits)
  qed
qed

subsection \<open>What \<^verbatim>\<open>AllocateWithOffset\<close> and a failing \<^verbatim>\<open>Allocate\<close> change\<close>

lemma AllocateWithOffset_frame:
  assumes "AllocateWithOffset off g = Some (r, g')"
  shows "(r = Inl ExhaustedRange \<and> g' = g) \<or>
         (\<exists>p. r = Inr p \<and> g' = g\<lparr>usedMap := (usedMap g)(p \<mapsto> True)\<rparr>)"
proof (cases "AllocateWithOffset_loop off g")
  case None
  with assms show ?thesis by (simp add: AllocateWithOffset_def)
next
  case (Some y)
  have "y = Inl ExhaustedRange \<or> (\<exists>p. y = Inr p)"
  proof (rule AllocateWithOffset_loop.raw_induct
      [where P = "\<lambda>c g y. y = Inl ExhaustedRange \<or> (\<exists>p. y = Inr p)", OF _ Some])
    fix loop c g y
    assume "\<And>c g y. loop c g = Some y \<Longrightarrow> y = Inl ExhaustedRange \<or> (\<exists>p. y = Inr p)"
      and "(if usedMap g c \<noteq> None
        then let current1 = c + 1
             in if maxValue g <s current1 then Some (Inl ExhaustedRange)
                else loop current1 g
        else Some (Inr c)) = Some y"
    then show "y = Inl ExhaustedRange \<or> (\<exists>p. y = Inr p)"
      by (auto simp: Let_def split: if_splits)
  qed
  with assms Some show ?thesis by (auto simp: AllocateWithOffset_def)
qed

lemma AllocateWithOffset_loop_cong:
  assumes "AllocateWithOffset_loop c g = Some y"
    and "usedMap h = usedMap g" "maxValue h = maxValue g"
  shows "AllocateWithOffset_loop c h = Some y"
proof -
  have "g = g \<longrightarrow> AllocateWithOffset_loop c h = Some y"
  proof (rule AllocateWithOffset_loop.raw_induct
    [where P = "\<lambda>c g' y. g' = g \<longrightarrow> AllocateWithOffset_loop c h = Some y", OF _ assms(1)])
  fix loop c g' y
  assume IH: "\<And>c g' y. loop c g' = Some y \<Longrightarrow> g' = g \<longrightarrow> AllocateWithOffset_loop c h = Some y"
    and body: "(if usedMap g' c \<noteq> None
        then let current1 = c + 1
             in if maxValue g' <s current1 then Some (Inl ExhaustedRange)
                else loop current1 g'
        else Some (Inr c)) = Some y"
  show "g' = g \<longrightarrow> AllocateWithOffset_loop c h = Some y"
  proof
    assume g': "g' = g"
    show "AllocateWithOffset_loop c h = Some y"
    proof (cases "usedMap g c \<noteq> None \<and> \<not> maxValue g <s c + 1")
      case True
      with body g' have "loop (c + 1) g = Some y" by (auto simp: Let_def)
      with IH have "AllocateWithOffset_loop (c + 1) h = Some y" by blast
      with True assms(2,3) show ?thesis by (subst AllocateWithOffset_loop.simps) (simp add: Let_def)
    next
      case False
      with body g' assms(2,3) show ?thesis
        by (subst AllocateWithOffset_loop.simps) (auto simp: Let_def split: if_splits)
    qed
  qed
  qed
  then show ?thesis by simp
qed

lemma AllocateWithOffset_loop_cursor:
  "AllocateWithOffset_loop c (g\<lparr>offset := x\<rparr>) = AllocateWithOffset_loop c g"
proof (cases "AllocateWithOffset_loop c g")
  case (Some y)
  then show ?thesis using AllocateWithOffset_loop_cong [of c g y "g\<lparr>offset := x\<rparr>"] by simp
next
  case None
  show ?thesis
  proof (cases "AllocateWithOffset_loop c (g\<lparr>offset := x\<rparr>)")
    case None
    with \<open>AllocateWithOffset_loop c g = None\<close> show ?thesis by simp
  next
    case (Some y)
    then have "AllocateWithOffset_loop c g = Some y"
      using AllocateWithOffset_loop_cong [of c "g\<lparr>offset := x\<rparr>" y g] by simp
    with None show ?thesis by simp
  qed
qed

lemma AllocateWithOffset_free:
  "usedMap g off = None \<Longrightarrow>
   AllocateWithOffset off g = Some (Inr off, g\<lparr>usedMap := (usedMap g)(off \<mapsto> True)\<rparr>)"
  by (simp add: AllocateWithOffset_def AllocateWithOffset_loop.simps)

lemma Allocate_ExhaustedRange_unchanged:
  assumes "Allocate g = Some (Inl ExhaustedRange, g')"
  shows "g' = g"
proof (cases "Allocate_loop (offset g) g")
  case None
  with assms show ?thesis by (simp add: Allocate_def)
next
  case (Some y)
  obtain r g1 where y: "y = (r, g1)" by (cases y)
  from Allocate_loop_frame [OF Some] y
  have f: "g1 = g\<lparr>offset := offset g1\<rparr>" "r = Inl ExhaustedRange \<longrightarrow> offset g1 = offset g"
    by (simp_all add: loop_frame_def)
  show ?thesis
  proof (cases r)
    case (Inl e)
    with assms Some y have "e = ExhaustedRange" "g' = g1" by (simp_all add: Allocate_def)
    with f Inl have "g' = g\<lparr>offset := offset g\<rparr>" by simp
    then show ?thesis by simp
  next
    case (Inr u)
    obtain r3 g3 where u: "updateOffset (g1\<lparr>usedMap := (usedMap g1)(offset g1 \<mapsto> True)\<rparr>) = (r3, g3)"
      by (cases "updateOffset (g1\<lparr>usedMap := (usedMap g1)(offset g1 \<mapsto> True)\<rparr>)")
    from updateOffset_frame [OF u] have "r3 \<noteq> Inl ExhaustedRange" by simp
    with assms Some y Inr u show ?thesis
      by (auto simp: Allocate_def Let_def split: sum.splits)
  qed
qed

subsection \<open>The scan of \<^verbatim>\<open>Allocate\<close> from a valid cursor\<close>

lemma cursor_step:
  assumes "cursor_ok g"
  obtains g1 where "updateOffset g = (Inr (), g1)" "g1 = g\<lparr>offset := offset g1\<rparr>"
    "cursor_ok g1"
    "sint (offset g1) = (if sint (offset g) + 1 = sint (valueRange g) then 0 else sint (offset g) + 1)"
proof -
  from assms have r: "0 < sint (valueRange g)"
    and o: "0 \<le> sint (offset g)" "sint (offset g) < sint (valueRange g)"
    by (simp_all add: cursor_ok_def word_sless_alt word_sle_eq)
  have s: "sint (offset g + 1) = sint (offset g) + 1"
    using o sint64_bounds(2) [of "valueRange g"] by (intro sint64_succ) simp
  have e: "offset g + 1 = valueRange g \<longleftrightarrow> sint (offset g) + 1 = sint (valueRange g)"
    using s sint64_inject [of "offset g + 1" "valueRange g"] by simp
  let ?g1 = "g\<lparr>offset := (if offset g + 1 = valueRange g then 0 else offset g + 1)\<rparr>"
  have 1: "updateOffset g = (Inr (), ?g1)" using assms by (rule updateOffset_cursor_ok)
  have 2: "?g1 = g\<lparr>offset := offset ?g1\<rparr>" by simp
  have 4: "sint (offset ?g1) =
      (if sint (offset g) + 1 = sint (valueRange g) then 0 else sint (offset g) + 1)"
    using e s by simp
  have 3: "cursor_ok ?g1"
    unfolding cursor_ok_def word_sless_alt word_sle_eq using 4 r o by (simp split: if_splits)
  from 1 2 3 4 show thesis by (rule that)
qed

lemma steps_left_pos:
  assumes "cursor_ok g" "0 \<le>s b"
  shows "0 < steps_left b g"
  using assms by (auto simp: steps_left_def cursor_ok_def word_sless_alt word_sle_eq)

lemma Allocate_loop_n_scan:
  assumes "cursor_ok g" "0 \<le>s b" "b <s valueRange g"
    and "\<forall>k. 0 \<le>s k \<and> k <s valueRange g \<and> scanned b g k \<longrightarrow> usedMap g k \<noteq> None"
    and "steps_left b g \<le> n"
  shows "\<exists>r g'. Allocate_loop_n n b g = Some (r, g') \<and> g' = g\<lparr>offset := offset g'\<rparr> \<and>
           cursor_ok g' \<and>
           ((r = Inl ExhaustedRange \<and> offset g' = b \<and> all_used g) \<or>
            (r = Inr () \<and> usedMap g (offset g') = None))"
  using assms
proof (induction n arbitrary: g)
  case 0
  with steps_left_pos [of g b] show ?case by simp
next
  case (Suc n)
  show ?case
  proof (cases "usedMap g (offset g) = None")
    case True
    with Suc.prems(1) show ?thesis by simp
  next
    case False
    from Suc.prems(1) obtain g1 where u: "updateOffset g = (Inr (), g1)"
      and g1: "g1 = g\<lparr>offset := offset g1\<rparr>" and ok1: "cursor_ok g1"
      and s: "sint (offset g1) =
        (if sint (offset g) + 1 = sint (valueRange g) then 0 else sint (offset g) + 1)"
      by (rule cursor_step)
    have same: "usedMap g1 = usedMap g" "valueRange g1 = valueRange g"
      by (subst g1, simp)+
    from Suc.prems(1,2,3) have r: "0 < sint (valueRange g)"
      and o: "0 \<le> sint (offset g)" "sint (offset g) < sint (valueRange g)"
      and b: "0 \<le> sint b" "sint b < sint (valueRange g)"
      by (simp_all add: cursor_ok_def word_sless_alt word_sle_eq)
    have cover: "scanned b g k \<or> k = offset g" if "scanned b g1 k \<or> offset g1 = b" 
      and "0 \<le>s k" "k <s valueRange g" for k
    proof -
      have e1: "k = offset g \<longleftrightarrow> sint k = sint (offset g)"
        and e2: "offset g1 = b \<longleftrightarrow> sint (offset g1) = sint b"
        by (simp_all add: sint64_inject)
      from that(2,3) have k: "0 \<le> sint k" "sint k < sint (valueRange g)"
        by (simp_all add: word_sless_alt word_sle_eq)
      from that(1) show ?thesis
        unfolding scanned_def word_sless_alt word_sle_eq e1 e2 s
        using k o b by (simp split: if_splits) linarith+
    qed
    show ?thesis
    proof (cases "offset g1 = b")
      case True
      have "all_used g"
        unfolding all_used_def
      proof (intro allI impI)
        fix k assume k: "0 \<le>s k \<and> k <s valueRange g"
        with cover [of k] True have "scanned b g k \<or> k = offset g" by simp
        with Suc.prems(4) k False show "usedMap g k \<noteq> None" by auto
      qed
      with True False u g1 ok1 show ?thesis by auto
    next
      case ne: False
      have inv1: "\<forall>k. 0 \<le>s k \<and> k <s valueRange g1 \<and> scanned b g1 k \<longrightarrow> usedMap g1 k \<noteq> None"
      proof (intro allI impI)
        fix k assume k: "0 \<le>s k \<and> k <s valueRange g1 \<and> scanned b g1 k"
        with cover [of k] same have "scanned b g k \<or> k = offset g" by simp
        with Suc.prems(4) k False same show "usedMap g1 k \<noteq> None" by auto
      qed
      have "sint (offset g1) \<noteq> sint b" using ne by (simp add: sint64_inject)
      then have "steps_left b g1 < steps_left b g"
        using s o b same by (auto simp: steps_left_def word_sless_alt split: if_splits)
      with Suc.prems(5) have le: "steps_left b g1 \<le> n" by simp
      from Suc.prems(3) same have "b <s valueRange g1" by simp
      from Suc.IH [OF ok1 Suc.prems(2) this inv1 le]
      obtain r g' where l: "Allocate_loop_n n b g1 = Some (r, g')"
        and g': "g' = g1\<lparr>offset := offset g'\<rparr>" and ok': "cursor_ok g'"
        and res: "(r = Inl ExhaustedRange \<and> offset g' = b \<and> all_used g1) \<or>
            (r = Inr () \<and> usedMap g1 (offset g') = None)"
        by blast
      have "g' = g\<lparr>offset := offset g'\<rparr>" by (subst g', subst g1) simp
      moreover have "all_used g1 = all_used g" using same by (simp add: all_used_def)
      moreover have "Allocate_loop_n (Suc n) b g = Some (r, g')"
        using False u ne l by simp
      ultimately show ?thesis using ok' res same by auto
    qed
  qed
qed

lemma Allocate_loop_n_from_cursor:
  assumes "cursor_ok g"
  shows "\<exists>r g'. Allocate_loop_n (nat (sint (valueRange g))) (offset g) g = Some (r, g') \<and>
           g' = g\<lparr>offset := offset g'\<rparr> \<and> cursor_ok g' \<and>
           ((r = Inl ExhaustedRange \<and> offset g' = offset g \<and> all_used g) \<or>
            (r = Inr () \<and> usedMap g (offset g') = None))"
proof -
  from assms have b: "0 \<le>s offset g" "offset g <s valueRange g"
    by (simp_all add: cursor_ok_def)
  have none: "\<forall>k. 0 \<le>s k \<and> k <s valueRange g \<and> scanned (offset g) g k \<longrightarrow> usedMap g k \<noteq> None"
    by (auto simp: scanned_def word_sless_alt word_sle_eq)
  have "steps_left (offset g) g \<le> nat (sint (valueRange g))"
    by (simp add: steps_left_def word_sless_alt)
  from Allocate_loop_n_scan [OF assms b none this] show ?thesis .
qed

lemma Allocate_cursor_ok:
  assumes "cursor_ok g"
  shows "(Allocate g = Some (Inl ExhaustedRange, g) \<and> all_used g) \<or>
         (\<exists>p g'. Allocate g = Some (Inr (p + minValue g), g') \<and>
            0 \<le>s p \<and> p <s valueRange g \<and> usedMap g p = None \<and> cursor_ok g' \<and>
            g' = g\<lparr>usedMap := (usedMap g)(p \<mapsto> True), offset := offset g'\<rparr>)"
proof -
  from Allocate_loop_n_from_cursor [OF assms]
  obtain r g1 where n: "Allocate_loop_n (nat (sint (valueRange g))) (offset g) g = Some (r, g1)"
    and g1: "g1 = g\<lparr>offset := offset g1\<rparr>" and ok1: "cursor_ok g1"
    and res: "(r = Inl ExhaustedRange \<and> offset g1 = offset g \<and> all_used g) \<or>
            (r = Inr () \<and> usedMap g (offset g1) = None)"
    by blast
  from n have l: "Allocate_loop (offset g) g = Some (r, g1)" by (rule Allocate_loop_n_sound)
  have same: "usedMap g1 = usedMap g" "valueRange g1 = valueRange g" "minValue g1 = minValue g"
    by (subst g1, simp)+
  from res show ?thesis
  proof
    assume e: "r = Inl ExhaustedRange \<and> offset g1 = offset g \<and> all_used g"
    then have "g1 = g" using g1 by simp
    with e l show ?thesis by (simp add: Allocate_def)
  next
    assume f: "r = Inr () \<and> usedMap g (offset g1) = None"
    let ?p = "offset g1"
    let ?g2 = "g1\<lparr>usedMap := (usedMap g1)(?p \<mapsto> True)\<rparr>"
    from ok1 have ok2: "cursor_ok ?g2" by (simp add: cursor_ok_def)
    from ok2 obtain g3 where u: "updateOffset ?g2 = (Inr (), g3)"
      and g3: "g3 = ?g2\<lparr>offset := offset g3\<rparr>" and ok3: "cursor_ok g3"
      by (rule cursor_step)
    have "Allocate g = Some (Inr (?p + minValue g), g3)"
      using l f u same by (simp add: Allocate_def Let_def)
    moreover have "0 \<le>s ?p" "?p <s valueRange g"
      using ok1 same by (simp_all add: cursor_ok_def)
    moreover have "g3 = g\<lparr>usedMap := (usedMap g)(?p \<mapsto> True), offset := offset g3\<rparr>"
      by (subst g3, subst g1) (simp add: same)
    ultimately show ?thesis using f ok3 by blast
  qed
qed



subsection \<open>Ranges and sequences of \<^verbatim>\<open>Allocate\<close>\<close>

lemma range_ok_size:
  "range_ok g \<Longrightarrow> sint (valueRange g) = sint (maxValue g) - sint (minValue g) + 1"
  by (simp add: range_ok_def word_sle_eq sint64_range_size)

lemma NewGenerator_ok:
  assumes "mn \<le>s mx" "sint mx - sint mn + 1 < 9223372036854775808"
  shows "cursor_ok (NewGenerator mn mx)" "range_ok (NewGenerator mn mx)"
proof -
  from assms have "sint (mx - mn + 1) = sint mx - sint mn + 1"
    by (intro sint64_range_size) (simp_all add: word_sle_eq)
  with assms show "cursor_ok (NewGenerator mn mx)"
    by (simp add: cursor_ok_def NewGenerator_def init_def word_sless_alt word_sle_eq)
  from assms show "range_ok (NewGenerator mn mx)"
    by (simp add: range_ok_def NewGenerator_def init_def)
qed

lemma id_in_range:
  assumes "range_ok g" "0 \<le>s p" "p <s valueRange g"
  shows "minValue g \<le>s p + minValue g \<and> p + minValue g \<le>s maxValue g"
proof -
  from assms have p: "0 \<le> sint p" "sint p \<le> sint (maxValue g) - sint (minValue g)"
    by (simp_all add: range_ok_size word_sless_alt word_sle_eq)
  have "p + minValue g = (word_of_int (sint p + sint (minValue g)) :: int64)" by simp
  moreover have "sint (word_of_int (sint p + sint (minValue g)) :: int64) = sint p + sint (minValue g)"
    using p sint64_bounds [of "minValue g"] sint64_bounds [of "maxValue g"]
    by (intro sint64_of_int) simp_all
  ultimately have "sint (p + minValue g) = sint p + sint (minValue g)" by simp
  with p show ?thesis by (simp add: word_sle_eq)
qed

lemma Allocate_new_id:
  assumes "Allocate g = Some (Inr i, g')"
  shows "usedMap g (i - minValue g) = None \<and> usedMap g' = (usedMap g)(i - minValue g \<mapsto> True)"
proof (cases "Allocate_loop (offset g) g")
  case None
  with assms show ?thesis by (simp add: Allocate_def)
next
  case (Some y)
  obtain r g1 where y: "y = (r, g1)" by (cases y)
  from Allocate_loop_frame [OF Some] y
  have g1: "g1 = g\<lparr>offset := offset g1\<rparr>" and free: "r = Inr () \<longrightarrow> usedMap g (offset g1) = None"
    by (simp_all add: loop_frame_def)
  have same: "usedMap g1 = usedMap g" "minValue g1 = minValue g"
    by (subst g1, simp)+
  let ?g2 = "g1\<lparr>usedMap := (usedMap g1)(offset g1 \<mapsto> True)\<rparr>"
  obtain r3 g3 where u: "updateOffset ?g2 = (r3, g3)" by (cases "updateOffset ?g2")
  from updateOffset_frame [OF u] have g3: "g3 = ?g2\<lparr>offset := offset g3\<rparr>" by simp
  have m3: "usedMap g3 = (usedMap g)(offset g1 \<mapsto> True)"
    by (subst g3) (simp add: same)
  from assms Some y u have r: "r = Inr ()" and i: "i = offset g1 + minValue g" and g': "g' = g3"
    by (auto simp: Allocate_def Let_def same split: sum.splits)
  from i have "i - minValue g = offset g1" by simp
  with free r m3 g' show ?thesis by simp
qed

lemma Allocate_preserves:
  assumes "Allocate g = Some (r, g')" "cursor_ok g"
  shows "cursor_ok g' \<and> minValue g' = minValue g \<and> maxValue g' = maxValue g \<and>
         valueRange g' = valueRange g \<and> r \<noteq> Inl DivideByZero \<and>
         (\<forall>k. usedMap g k \<noteq> None \<longrightarrow> usedMap g' k \<noteq> None) \<and>
         (\<forall>i. r = Inr i \<longrightarrow> 0 \<le>s i - minValue g \<and> i - minValue g <s valueRange g)"
proof -
  from Allocate_cursor_ok [OF assms(2)] show ?thesis
  proof
    assume "Allocate g = Some (Inl ExhaustedRange, g) \<and> all_used g"
    with assms show ?thesis by auto
  next
    assume "\<exists>p g'. Allocate g = Some (Inr (p + minValue g), g') \<and>
            0 \<le>s p \<and> p <s valueRange g \<and> usedMap g p = None \<and> cursor_ok g' \<and>
            g' = g\<lparr>usedMap := (usedMap g)(p \<mapsto> True), offset := offset g'\<rparr>"
    then obtain p h where a: "Allocate g = Some (Inr (p + minValue g), h)"
      and p: "0 \<le>s p" "p <s valueRange g" "usedMap g p = None" and ok: "cursor_ok h"
      and h: "h = g\<lparr>usedMap := (usedMap g)(p \<mapsto> True), offset := offset h\<rparr>" by blast
    from a assms(1) have r: "r = Inr (p + minValue g)" and g': "g' = h" by simp_all
    have "minValue h = minValue g" "maxValue h = maxValue g" "valueRange h = valueRange g"
      "usedMap h = (usedMap g)(p \<mapsto> True)"
      by (subst h, simp)+
    with r g' ok p show ?thesis by auto
  qed
qed

lemma calls_Allocate_distinct:
  assumes "cursor_ok g" "range_ok g"
  shows "\<exists>rs g'. calls (replicate n CallAllocate) g = Some (rs, g') \<and>
           distinct (returned rs) \<and>
           (\<forall>i\<in>set (returned rs). minValue g \<le>s i \<and> i \<le>s maxValue g \<and>
                                   usedMap g (i - minValue g) = None)"
  using assms
proof (induction n arbitrary: g)
  case 0
  then show ?case by simp
next
  case (Suc n)
  from Allocate_cursor_ok [OF Suc.prems(1)]
  obtain r g1 where a: "Allocate g = Some (r, g1)" by blast
  from Allocate_preserves [OF a Suc.prems(1)]
  have ok1: "cursor_ok g1" and same: "minValue g1 = minValue g" "maxValue g1 = maxValue g"
    "valueRange g1 = valueRange g" and nopanic: "r \<noteq> Inl DivideByZero"
    and grow: "\<forall>k. usedMap g k \<noteq> None \<longrightarrow> usedMap g1 k \<noteq> None"
    and pos: "\<forall>i. r = Inr i \<longrightarrow> 0 \<le>s i - minValue g \<and> i - minValue g <s valueRange g"
    by simp_all
  from Suc.prems(2) same have "range_ok g1" by (simp add: range_ok_def)
  from Suc.IH [OF ok1 this]
  obtain rs g' where c: "calls (replicate n CallAllocate) g1 = Some (rs, g')"
    and d: "distinct (returned rs)"
    and each: "\<forall>i\<in>set (returned rs). minValue g1 \<le>s i \<and> i \<le>s maxValue g1 \<and>
                                   usedMap g1 (i - minValue g1) = None"
    by blast
  have run: "calls (replicate (Suc n) CallAllocate) g = Some (r # rs, g')"
    using a c nopanic by simp
  from each same grow
  have each': "\<forall>i\<in>set (returned rs). minValue g \<le>s i \<and> i \<le>s maxValue g \<and>
                                   usedMap g (i - minValue g) = None"
    by auto
  show ?case
  proof (cases r)
    case (Inl e)
    with run d each' show ?thesis by auto
  next
    case (Inr i)
    from Allocate_new_id [of g i g1] a Inr
    have new: "usedMap g (i - minValue g) = None" "usedMap g1 (i - minValue g) \<noteq> None" by simp_all
    from pos Inr have "0 \<le>s i - minValue g" "i - minValue g <s valueRange g" by simp_all
    from id_in_range [OF Suc.prems(2) this] have "minValue g \<le>s i \<and> i \<le>s maxValue g" by simp
    moreover have "i \<notin> set (returned rs)" using each new(2) same by auto
    ultimately show ?thesis using run d each' new(1) Inr by auto
  qed
qed

text \<open>
  The cursor stays valid along every sequence of calls: with \<open>NewGenerator_ok\<close>, every
  state a client reaches from a new generator on a range whose size fits \<^verbatim>\<open>int64\<close> has
  a positive size and its cursor in \<open>[0, size)\<close>.
\<close>

lemma calls_cursor_ok:
  assumes "cursor_ok g" "calls cs g = Some (rs, g')"
  shows "cursor_ok g'"
  using assms
proof (induction cs arbitrary: g rs)
  case Nil
  then show ?case by simp
next
  case (Cons c cs)
  show ?case
  proof (cases c)
    case CallAllocate
    from Allocate_cursor_ok [OF Cons.prems(1)]
    obtain r g1 where a: "Allocate g = Some (r, g1)" by blast
    from Allocate_preserves [OF a Cons.prems(1)]
    have ok1: "cursor_ok g1" and np: "r \<noteq> Inl DivideByZero" by simp_all
    from Cons.prems(2) CallAllocate a np
    obtain rs1 where "calls cs g1 = Some (rs1, g')" by auto
    from Cons.IH [OF ok1 this] show ?thesis .
  next
    case (CallAllocateWithOffset off)
    with Cons.prems(2) obtain r g1 rs1 where a: "AllocateWithOffset off g = Some (r, g1)"
      and c: "calls cs g1 = Some (rs1, g')"
      by (auto split: option.splits)
    from AllocateWithOffset_frame [OF a] Cons.prems(1) have "cursor_ok g1"
      by (auto simp: cursor_ok_def)
    from Cons.IH [OF this c] show ?thesis .
  next
    case (CallFreeID i)
    with Cons.prems(2) have c: "calls cs (FreeID i g) = Some (rs, g')" by simp
    from Cons.prems(1) have "cursor_ok (FreeID i g)"
      by (simp add: cursor_ok_def FreeID_def)
    from Cons.IH [OF this c] show ?thesis .
  qed
qed

subsection \<open>\<^verbatim>\<open>AllocateWithOffset\<close> from a position up to the maximum\<close>


lemma AllocateWithOffset_at_max:
  assumes "usedMap g (maxValue g) \<noteq> None" "sint (maxValue g) < 9223372036854775807"
  shows "AllocateWithOffset (maxValue g) g = Some (Inl ExhaustedRange, g)"
proof -
  have "sint (maxValue g + 1) = sint (maxValue g) + 1"
    using assms(2) by (rule sint64_succ)
  then have "maxValue g <s maxValue g + 1" by (simp add: word_sless_alt)
  with assms(1) have "AllocateWithOffset_loop (maxValue g) g = Some (Inl ExhaustedRange)"
    by (subst AllocateWithOffset_loop.simps) (simp add: Let_def)
  then show ?thesis by (simp add: AllocateWithOffset_def)
qed

subsection \<open>\<^verbatim>\<open>AllocateWithOffset\<close> returns while some key is free\<close>



section \<open>The claims\<close>

subsection \<open>Evaluation on concrete states\<close>

lemmas run_simps =
  NewGenerator_def init_def Allocate_def Allocate_loop.simps AllocateWithOffset_def
  AllocateWithOffset_loop.simps updateOffset_def rem64_def smod_int_alt_def FreeID_def
  word_sless_alt word_sle_eq cursor_ok_def range_ok_def


lemma example_full_reached:
  "AllocateWithOffset 1 example_taken = Some (Inr 1, example_full)"
  by (simp add: example_taken_def example_full_def run_simps)

text \<open>
  C1 (code defect). The claim: \<^verbatim>\<open>FreeID(id)\<close> removes the offset \<open>id - min\<close>, so that with
  \<open>min = max = 1\<close> an \<^verbatim>\<open>Allocate\<close> after \<^verbatim>\<open>FreeID(1)\<close> returns 1 again. The code deletes
  the key \<open>id\<close> itself, while \<^verbatim>\<open>Allocate\<close> stored the offset \<open>id - min\<close>: offset 0 stays in
  the map after \<^verbatim>\<open>FreeID(1)\<close>, and the third \<^verbatim>\<open>Allocate\<close> fails as the second did.
\<close>

theorem C1_free_keeps_offset:
  "map_option fst
     (calls [CallAllocate, CallAllocate, CallFreeID 1, CallAllocate] (NewGenerator 1 1)) =
     Some [Inr 1, Inl ExhaustedRange, Inl ExhaustedRange] \<and>
   usedMap (FreeID 1 example_taken) 0 = Some True"
  by (auto simp: example_taken_def run_simps)

text \<open>
  C2 (code defect, the same one). The claim: with \<open>min = 1\<close>, \<open>max = 5\<close>, after five
  \<^verbatim>\<open>Allocate\<close> calls and \<^verbatim>\<open>FreeID(3)\<close> the next \<^verbatim>\<open>Allocate\<close> returns 3. In the code
  \<^verbatim>\<open>FreeID(3)\<close> deletes key 3, which is the offset of identifier 4, and the next
  \<^verbatim>\<open>Allocate\<close> returns 4.
\<close>

theorem C2_allocate_after_free:
  "map_option fst
     (calls [CallAllocate, CallAllocate, CallAllocate, CallAllocate, CallAllocate,
             CallFreeID 3, CallAllocate] (NewGenerator 1 5)) =
     Some [Inr 1, Inr 2, Inr 3, Inr 4, Inr 5, Inr 4]"
  by (auto simp: run_simps)

text \<open>
  C7. When \<^verbatim>\<open>Allocate\<close> or \<^verbatim>\<open>AllocateWithOffset\<close> returns the exhausted-range error, the
  state after the call is the state before it: same map, same cursor (and the same
  bounds). This holds from every state, valid cursor or not.
\<close>

theorem C7_exhausted_leaves_state:
  "(Allocate g = Some (Inl ExhaustedRange, g') \<longrightarrow> g' = g) \<and>
   (AllocateWithOffset off g = Some (Inl ExhaustedRange, g'') \<longrightarrow> g'' = g)"
  using Allocate_ExhaustedRange_unchanged [of g g']
    AllocateWithOffset_frame [of off g "Inl ExhaustedRange" g'']
  by auto

theorem C7_exhausted_leaves_state_witness:
  "(\<exists>g'. Allocate example_full = Some (Inl ExhaustedRange, g') \<and> g' = example_full) \<and>
   (\<exists>g''. AllocateWithOffset 1 example_full = Some (Inl ExhaustedRange, g'') \<and>
      g'' = example_full)"
proof -
  have a: "\<exists>g'. Allocate example_full = Some (Inl ExhaustedRange, g')"
    by (auto simp: example_full_def run_simps)
  have b: "\<exists>g'. AllocateWithOffset 1 example_full = Some (Inl ExhaustedRange, g')"
    by (auto simp: example_full_def run_simps)
  from a b C7_exhausted_leaves_state [of example_full _ 1] show ?thesis by blast
qed

text \<open>
  C9. \<^verbatim>\<open>AllocateWithOffset\<close> does not write the cursor: after the call, failed or not,
  the cursor is what it was, and the state differs from the one before in the map at
  most. It does not read the cursor either: run from a state with another cursor, it
  gives the same reply and the same map.
\<close>

theorem C9_AllocateWithOffset_leaves_cursor:
  "(AllocateWithOffset off g = Some (r, g') \<longrightarrow>
      offset g' = offset g \<and> g' = g\<lparr>usedMap := usedMap g'\<rparr>) \<and>
   AllocateWithOffset off (g\<lparr>offset := c\<rparr>) =
     map_option (\<lambda>(r, g'). (r, g'\<lparr>offset := c\<rparr>)) (AllocateWithOffset off g)"
proof (intro conjI impI)
  assume a: "AllocateWithOffset off g = Some (r, g')"
  from AllocateWithOffset_frame [OF a] show "offset g' = offset g" by auto
  from AllocateWithOffset_frame [OF a] show "g' = g\<lparr>usedMap := usedMap g'\<rparr>" by auto
next
  show "AllocateWithOffset off (g\<lparr>offset := c\<rparr>) =
     map_option (\<lambda>(r, g'). (r, g'\<lparr>offset := c\<rparr>)) (AllocateWithOffset off g)"
    by (simp add: AllocateWithOffset_def AllocateWithOffset_loop_cursor
        split: option.splits sum.splits)
qed

theorem C9_AllocateWithOffset_leaves_cursor_witness:
  "AllocateWithOffset 1 example_taken = Some (Inr 1, example_full) \<and>
   offset example_full = offset example_taken \<and>
   example_full = example_taken\<lparr>usedMap := usedMap example_full\<rparr> \<and>
   AllocateWithOffset 1 (example_taken\<lparr>offset := 7\<rparr>) = Some (Inr 1, example_full\<lparr>offset := 7\<rparr>)"
  using C9_AllocateWithOffset_leaves_cursor [of 1 example_taken "Inr 1" example_full 7]
    example_full_reached
  by simp

text \<open>
  C10. \<^verbatim>\<open>AllocateWithOffset\<close> tests its argument against the map before any comparison
  with the bounds: whenever the argument is not a key of the map, the call succeeds,
  returns the argument and stores it as a key, also when the argument is below
  \<^verbatim>\<open>minValue\<close> or above \<^verbatim>\<open>maxValue\<close>; the identifier returned is then outside
  \<open>[minValue, maxValue]\<close>.
\<close>

theorem C10_AllocateWithOffset_unchecked:
  "(usedMap g off = None \<longrightarrow>
      AllocateWithOffset off g = Some (Inr off, g\<lparr>usedMap := (usedMap g)(off \<mapsto> True)\<rparr>)) \<and>
   (usedMap g off = None \<and> (off <s minValue g \<or> maxValue g <s off) \<longrightarrow>
      (\<exists>i g'. AllocateWithOffset off g = Some (Inr i, g') \<and>
         (i <s minValue g \<or> maxValue g <s i)))"
  by (auto simp: AllocateWithOffset_free)

theorem C10_AllocateWithOffset_unchecked_witness:
  "usedMap (NewGenerator 1 10) 0 = None \<and> 0 <s minValue (NewGenerator 1 10) \<and>
   AllocateWithOffset 0 (NewGenerator 1 10) =
     Some (Inr 0, (NewGenerator 1 10)\<lparr>usedMap := (usedMap (NewGenerator 1 10))(0 \<mapsto> True)\<rparr>) \<and>
   usedMap (NewGenerator 1 10) 11 = None \<and> maxValue (NewGenerator 1 10) <s 11 \<and>
   AllocateWithOffset 11 (NewGenerator 1 10) =
     Some (Inr 11, (NewGenerator 1 10)\<lparr>usedMap := (usedMap (NewGenerator 1 10))(11 \<mapsto> True)\<rparr>)"
proof -
  have h: "usedMap (NewGenerator 1 10) 0 = None" "0 <s minValue (NewGenerator 1 10)"
    "usedMap (NewGenerator 1 10) 11 = None" "maxValue (NewGenerator 1 10) <s 11"
    by (simp_all add: NewGenerator_def init_def word_sless_alt)
  from h C10_AllocateWithOffset_unchecked [of "NewGenerator 1 10" 0]
    C10_AllocateWithOffset_unchecked [of "NewGenerator 1 10" 11]
  show ?thesis by blast
qed

text \<open>
  C6. From a state with a positive size and the cursor in \<open>[0, size)\<close>, \<^verbatim>\<open>Allocate\<close> returns
  the exhausted-range error exactly when every offset in \<open>[0, size)\<close> is a key of the map.
  On the range \<open>[1, 3]\<close>, four calls in a row return 1, 2, 3 and then the error.
\<close>

theorem C6_Allocate_exhausted_iff:
  "(cursor_ok g \<longrightarrow>
      ((\<exists>g'. Allocate g = Some (Inl ExhaustedRange, g')) \<longleftrightarrow>
       (\<forall>k. 0 \<le>s k \<and> k <s valueRange g \<longrightarrow> usedMap g k \<noteq> None))) \<and>
   map_option fst
     (calls [CallAllocate, CallAllocate, CallAllocate, CallAllocate] (NewGenerator 1 3)) =
     Some [Inr 1, Inr 2, Inr 3, Inl ExhaustedRange]"
proof (intro conjI impI)
  assume ok: "cursor_ok g"
  show "(\<exists>g'. Allocate g = Some (Inl ExhaustedRange, g')) \<longleftrightarrow>
       (\<forall>k. 0 \<le>s k \<and> k <s valueRange g \<longrightarrow> usedMap g k \<noteq> None)"
  proof
    assume "\<exists>g'. Allocate g = Some (Inl ExhaustedRange, g')"
    with Allocate_cursor_ok [OF ok] have "all_used g" by auto
    then show "\<forall>k. 0 \<le>s k \<and> k <s valueRange g \<longrightarrow> usedMap g k \<noteq> None"
      by (simp add: all_used_def)
  next
    assume "\<forall>k. 0 \<le>s k \<and> k <s valueRange g \<longrightarrow> usedMap g k \<noteq> None"
    with Allocate_cursor_ok [OF ok] show "\<exists>g'. Allocate g = Some (Inl ExhaustedRange, g')"
      by blast
  qed
next
  show "map_option fst
     (calls [CallAllocate, CallAllocate, CallAllocate, CallAllocate] (NewGenerator 1 3)) =
     Some [Inr 1, Inr 2, Inr 3, Inl ExhaustedRange]"
    by (auto simp: run_simps)
qed

theorem C6_Allocate_exhausted_iff_witness:
  "cursor_ok example_taken \<and>
   Allocate example_taken = Some (Inl ExhaustedRange, example_taken) \<and>
   0 <s valueRange example_taken \<and> usedMap example_taken 0 \<noteq> None \<and>
   cursor_ok (NewGenerator 1 3) \<and>
   usedMap (NewGenerator 1 3) 0 = None \<and>
   \<not> (\<exists>g'. Allocate (NewGenerator 1 3) = Some (Inl ExhaustedRange, g'))"
proof -
  have ok: "cursor_ok example_taken" "cursor_ok (NewGenerator 1 3)"
    by (simp_all add: example_taken_def run_simps)
  have a: "Allocate example_taken = Some (Inl ExhaustedRange, example_taken)"
    by (auto simp: example_taken_def run_simps)
  have f: "usedMap (NewGenerator 1 3) 0 = None" "0 \<le>s (0::int64)"
    "0 <s valueRange (NewGenerator 1 3)" "0 <s valueRange example_taken"
    by (simp_all add: example_taken_def run_simps)
  from ok a f C6_Allocate_exhausted_iff [of example_taken]
    C6_Allocate_exhausted_iff [of "NewGenerator 1 3"]
  show ?thesis by blast
qed

text \<open>
  C4 (code defect, the one of C1). The claim: an identifier returned by \<^verbatim>\<open>Allocate\<close> is
  distinct from every identifier that is allocated at that moment. On the range \<open>[1, 3]\<close>
  three \<^verbatim>\<open>Allocate\<close> calls return 1, 2 and 3; \<^verbatim>\<open>FreeID(1)\<close> then deletes key 1, the
  offset of identifier 2, and the next \<^verbatim>\<open>Allocate\<close> returns 2, which was never freed.
  What the code does guarantee is \<open>Allocate_new_id\<close> (the offset of the identifier returned
  was not a key of the map) and \<open>calls_Allocate_distinct\<close> (\<^verbatim>\<open>Allocate\<close> calls in a row
  return pairwise distinct identifiers in \<open>[min, max]\<close>).
\<close>

theorem C4_Allocate_returns_held_id:
  "map_option fst
     (calls [CallAllocate, CallAllocate, CallAllocate, CallFreeID 1, CallAllocate]
        (NewGenerator 1 3)) =
     Some [Inr 1, Inr 2, Inr 3, Inr 2]"
  by (auto simp: run_simps)




text \<open>
  C5 (code defect). The claim: \<^verbatim>\<open>AllocateWithOffset(offset)\<close> fails with the
  exhausted-range error whenever the scan passes \<^verbatim>\<open>maxValue\<close> before it finds a free
  position, also when \<open>offset\<close> itself is above \<^verbatim>\<open>maxValue\<close>. The loop compares
  \<^verbatim>\<open>current\<close> with \<^verbatim>\<open>maxValue\<close> only after an occupied probe, never before the first
  one: on the range \<open>[1, 10]\<close>, \<^verbatim>\<open>AllocateWithOffset(11)\<close> returns 11, an identifier
  outside the range, and only the second such call fails. For an argument up to
  \<^verbatim>\<open>maxValue\<close> the loop does what the claim says (\<open>AllocateWithOffset_below_max\<close>,
  \<open>AllocateWithOffset_at_max\<close>).
\<close>

theorem C5_offset_above_max_returned:
  "maxValue (NewGenerator 1 10) = 10 \<and>
   map_option fst (AllocateWithOffset 11 (NewGenerator 1 10)) = Some (Inr 11) \<and>
   map_option fst
     (calls [CallAllocateWithOffset 11, CallAllocateWithOffset 11] (NewGenerator 1 10)) =
     Some [Inr 11, Inl ExhaustedRange]"
  by (auto simp: run_simps)




end
